theory Spec2Isabelle
  imports Main
begin

section \<open>Types of argument slots\<close>

text \<open>
  The initializer of \<^verbatim>\<open>__ngc_initializer__.h\<close> works on the types of a parameter pack.
  A type is described by what the code can observe of it: the unqualified object type
  (an instance \<^verbatim>\<open>ngc :: string <chars...>\<close> with its characters, or any other type,
  identified by its name), top-level \<^verbatim>\<open>const\<close> and \<^verbatim>\<open>volatile\<close> qualification of the
  object type, and whether the type is a reference to that object type.
\<close>

datatype base_type = ngc_string string | other_type string

datatype ref_kind = no_ref | lvalue_ref | rvalue_ref

datatype cpp_type =
  cpp_type (base: base_type) (is_const: bool) (is_volatile: bool) (ref: ref_kind)

text \<open>
  \<^verbatim>\<open>std :: remove_reference\<close> yields the referred-to type; \<^verbatim>\<open>std :: remove_const\<close>
  removes a top-level \<^verbatim>\<open>const\<close>, which a reference type does not have.
\<close>

fun remove_reference :: "cpp_type \<Rightarrow> cpp_type" where
  "remove_reference (cpp_type b c v r) = cpp_type b c v no_ref"

fun remove_const :: "cpp_type \<Rightarrow> cpp_type" where
  "remove_const (cpp_type b c v r) = (if r = no_ref then cpp_type b False v r else cpp_type b c v r)"

text \<open>\<^verbatim>\<open>clean <dtype> :: ctype\<close>\<close>

definition clean :: "cpp_type \<Rightarrow> cpp_type" where
  "clean dtype = remove_const (remove_reference dtype)"

text \<open>
  \<^verbatim>\<open>is_string <stype> :: value\<close>: the partial specialization matches exactly the
  unqualified instances of \<^verbatim>\<open>ngc :: string\<close>, the primary template everything else.
\<close>

fun is_string :: "cpp_type \<Rightarrow> bool" where
  "is_string (cpp_type (ngc_string chars) False False no_ref) = True"
| "is_string stype = False"

text \<open>\<^verbatim>\<open>std :: is_same\<close>\<close>

definition is_same :: "cpp_type \<Rightarrow> cpp_type \<Rightarrow> bool" where
  "is_same a b = (a = b)"

text \<open>
  Types for the statements below: the unqualified type \<^verbatim>\<open>ngc :: string <chars...>\<close>, an
  unqualified type that is no string, and a type with its \<^verbatim>\<open>const\<close> and reference
  qualification replaced (adding or removing either qualification is an instance).
\<close>

definition string_type :: "string \<Rightarrow> cpp_type" where
  "string_type chars = cpp_type (ngc_string chars) False False no_ref"

definition value_type :: "string \<Rightarrow> cpp_type" where
  "value_type name = cpp_type (other_type name) False False no_ref"

fun qualify :: "bool \<Rightarrow> ref_kind \<Rightarrow> cpp_type \<Rightarrow> cpp_type" where
  "qualify c r (cpp_type b c0 v r0) = cpp_type b c v r"

section \<open>The scanner: \<^verbatim>\<open>arguments_range\<close>\<close>

text \<open>
  Modelled from the spec: \<^verbatim>\<open>__ngc_reverse_parameter_pack__\<close> is declared outside this file;
  the scanner "explores the reversed parameter pack", so the pack is reversed.
\<close>

definition ngc_reverse_parameter_pack :: "cpp_type list \<Rightarrow> cpp_type list" where
  "ngc_reverse_parameter_pack haystack = rev haystack"

record iterator_result =
  it_found :: bool
  it_completed :: bool
  it_beg :: nat
  it_end :: nat

record range_result =
  found :: bool
  beg :: nat
  end_pos :: nat

text \<open>
  \<^verbatim>\<open>arguments_range\<close> and its nested \<^verbatim>\<open>iterator\<close> refer to each other: the member
  \<^verbatim>\<open>string\<close> of \<^verbatim>\<open>iterator\<close> reads \<^verbatim>\<open>arguments_range <ineedle, ftypes...> :: found\<close>.
  The positions are \<^verbatim>\<open>size_t\<close> sums of at most one per element of the pack; a pack is far
  shorter than \<open>2 ^ 64\<close>, so they are natural numbers here.
\<close>

function arguments_range :: "cpp_type \<Rightarrow> cpp_type list \<Rightarrow> range_result"
  and iterator :: "cpp_type \<Rightarrow> cpp_type list \<Rightarrow> iterator_result" where
  "arguments_range needle haystack =
     \<lparr>found = it_found (iterator needle (ngc_reverse_parameter_pack haystack)),
      beg = it_beg (iterator needle (ngc_reverse_parameter_pack haystack)),
      end_pos = it_end (iterator needle (ngc_reverse_parameter_pack haystack))\<rparr>"
| "iterator ineedle [] = \<lparr>it_found = False, it_completed = False, it_beg = 0, it_end = 0\<rparr>"
| "iterator ineedle (ftype # ftypes) =
     (let match = is_same (clean ineedle) (clean ftype);
          string = (is_string (clean ftype) \<and> found (arguments_range ineedle ftypes));
          found' = (match \<or> it_found (iterator ineedle ftypes));
          completed = (string \<or> it_completed (iterator ineedle ftypes))
      in \<lparr>it_found = found',
          it_completed = completed,
          it_beg = it_beg (iterator ineedle ftypes) + (if found' then 0 else 1),
          it_end = it_end (iterator ineedle ftypes) + (if completed then 0 else 1)\<rparr>)"
  by pat_completeness auto
termination
  by (relation "measure (\<lambda>x. case x of Inl (n, h) \<Rightarrow> 2 * length h + 1 | Inr (n, h) \<Rightarrow> 2 * length h)")
     (auto simp: ngc_reverse_parameter_pack_def)

text \<open>The two tests of \<^verbatim>\<open>iterator\<close> on one slot, named for the statements below.\<close>

definition matches :: "cpp_type \<Rightarrow> cpp_type \<Rightarrow> bool" where
  "matches needle ftype = is_same (clean needle) (clean ftype)"

definition marker_slot :: "cpp_type \<Rightarrow> bool" where
  "marker_slot ftype = is_string (clean ftype)"

section \<open>The slicer: \<^verbatim>\<open>front_step\<close>, \<^verbatim>\<open>rotate_step\<close>, \<^verbatim>\<open>back_step\<close>\<close>

text \<open>
  An argument is a slot of the call: its deduced type (an element of \<^verbatim>\<open>atypes...\<close>) and the
  value it carries. The state is the log of the calls of \<^verbatim>\<open>__ngc_construct__\<close> made so far,
  each with the place of the call in this file (line 237 in \<^verbatim>\<open>back_step\<close>, line 300 in
  \<^verbatim>\<open>default_initializer\<close>), the member and the arguments forwarded. An instantiation with no
  matching \<^verbatim>\<open>execute\<close> (the primary templates of the three steps need one argument to take
  off the pack) is ill-formed: the result is \<open>None\<close>.
\<close>

type_synonym 'v argument = "cpp_type \<times> 'v"

datatype call_site = in_back_step | in_default_initializer

datatype ('m, 'v) construct_call =
  construct_call (call_site: call_site) (call_member: 'm) (call_arguments: "'v argument list")

type_synonym ('m, 'v) log = "('m, 'v) construct_call list"

text \<open>
  Modelled from the spec: \<^verbatim>\<open>__ngc_construct__\<close> is declared outside this file; it is the
  field's construction operation, invoked with no arguments (default construction) or with
  the bundle (parametric construction). What it does to the member is not looked into: the
  call is appended to the log.
\<close>

definition ngc_construct ::
  "call_site \<Rightarrow> 'm \<Rightarrow> 'v argument list \<Rightarrow> ('m, 'v) log \<Rightarrow> ('m, 'v) log option" where
  "ngc_construct site member arguments s = Some (s @ [construct_call site member arguments])"

fun back_step :: "nat \<Rightarrow> 'm \<Rightarrow> 'v argument list \<Rightarrow> ('m, 'v) log \<Rightarrow> ('m, 'v) log option" where
  "back_step 0 member arguments s = ngc_construct in_back_step member arguments s"
| "back_step (Suc back) member [] s = None"
| "back_step (Suc back) member (argument # arguments) s = back_step back member arguments s"

fun rotate_step ::
  "nat \<Rightarrow> nat \<Rightarrow> 'm \<Rightarrow> 'v argument list \<Rightarrow> ('m, 'v) log \<Rightarrow> ('m, 'v) log option" where
  "rotate_step 0 back member arguments s = back_step back member arguments s"
| "rotate_step (Suc rotate') back member [] s = None"
| "rotate_step (Suc rotate') back member (argument # arguments) s =
     rotate_step rotate' back member (arguments @ [argument]) s"

fun front_step ::
  "nat \<Rightarrow> nat \<Rightarrow> nat \<Rightarrow> 'm \<Rightarrow> 'v argument list \<Rightarrow> ('m, 'v) log \<Rightarrow> ('m, 'v) log option" where
  "front_step 0 rotate' back member arguments s = rotate_step rotate' back member arguments s"
| "front_step (Suc front) rotate' back member [] s = None"
| "front_step (Suc front) rotate' back member (argument # arguments) s =
     front_step front rotate' back member arguments s"

section \<open>The field initializer: \<^verbatim>\<open>member_initializer\<close>\<close>

text \<open>
  The template arguments of \<^verbatim>\<open>front_step\<close> are \<^verbatim>\<open>size_t\<close> expressions with subtractions,
  which wrap around below zero (\<^verbatim>\<open>size_t\<close> of 64 bits; the operands are positions in a pack
  and lie below \<open>2 ^ 64\<close>).
\<close>

definition size_t_sub :: "nat \<Rightarrow> nat \<Rightarrow> nat" where
  "size_t_sub a b = (if b \<le> a then a - b else a + 2 ^ 64 - b)"

definition parametric_initializer ::
  "cpp_type \<Rightarrow> 'm \<Rightarrow> 'v argument list \<Rightarrow> ('m, 'v) log \<Rightarrow> ('m, 'v) log option" where
  "parametric_initializer name member arguments s =
     (let range = arguments_range name (map fst arguments)
      in front_step (beg range + 1)
           (size_t_sub (size_t_sub (end_pos range) (beg range)) 1)
           (size_t_sub (length arguments) (end_pos range))
           member arguments s)"

definition default_initializer ::
  "cpp_type \<Rightarrow> 'm \<Rightarrow> 'v argument list \<Rightarrow> ('m, 'v) log \<Rightarrow> ('m, 'v) log option" where
  "default_initializer name member arguments s = ngc_construct in_default_initializer member [] s"

definition member_initializer ::
  "cpp_type \<Rightarrow> 'm \<Rightarrow> 'v argument list \<Rightarrow> ('m, 'v) log \<Rightarrow> ('m, 'v) log option" where
  "member_initializer name member arguments s =
     (let range = arguments_range name (map fst arguments)
      in if found range then parametric_initializer name member arguments s
         else default_initializer name member arguments s)"

section \<open>The orchestrator: \<^verbatim>\<open>member_iterator\<close>, \<^verbatim>\<open>null_iterator\<close>, \<^verbatim>\<open>__ngc_initialize__\<close>\<close>

text \<open>
  The introspection of the object's type is declared outside this file and is a parameter:
  \<^verbatim>\<open>__ngc_member_count__ <type> :: value\<close>, and for each index the \<^verbatim>\<open>name\<close> of
  \<^verbatim>\<open>__ngc_member__ <index, false>\<close> and the member that its \<^verbatim>\<open>get(that)\<close> refers to.
\<close>

record 'm object_type =
  ngc_member_count :: nat
  ngc_member_name :: "nat \<Rightarrow> cpp_type"
  ngc_member_get :: "nat \<Rightarrow> 'm"

fun member_iterator ::
  "'m object_type \<Rightarrow> nat \<Rightarrow> 'v argument list \<Rightarrow> ('m, 'v) log \<Rightarrow> ('m, 'v) log option" where
  "member_iterator type 0 arguments s =
     member_initializer (ngc_member_name type 0) (ngc_member_get type 0) arguments s"
| "member_iterator type (Suc index) arguments s =
     (case member_iterator type index arguments s of
        None \<Rightarrow> None
      | Some s' \<Rightarrow>
          member_initializer (ngc_member_name type (Suc index)) (ngc_member_get type (Suc index))
            arguments s')"

definition null_iterator ::
  "'m object_type \<Rightarrow> 'v argument list \<Rightarrow> ('m, 'v) log \<Rightarrow> ('m, 'v) log option" where
  "null_iterator type arguments s = Some s"

definition ngc_initialize ::
  "'m object_type \<Rightarrow> 'v argument list \<Rightarrow> ('m, 'v) log \<Rightarrow> ('m, 'v) log option" where
  "ngc_initialize type arguments s =
     (if ngc_member_count type > 0
      then member_iterator type (ngc_member_count type - 1) arguments s
      else null_iterator type arguments s)"

section \<open>The scan result in the words of the specification\<close>

text \<open>
  \<open>first_index P xs\<close> is the 0-based index from the head of the first element of \<open>xs\<close>
  that satisfies \<open>P\<close>, or the length of \<open>xs\<close> when there is none.
\<close>

fun first_index :: "('a \<Rightarrow> bool) \<Rightarrow> 'a list \<Rightarrow> nat" where
  "first_index P [] = 0"
| "first_index P (x # xs) = (if P x then 0 else Suc (first_index P xs))"

definition spec_scan :: "cpp_type \<Rightarrow> cpp_type list \<Rightarrow> range_result" where
  "spec_scan target_name sequence =
     (let b = first_index (matches target_name) sequence
      in \<lparr>found = (b < length sequence),
          beg = b,
          end_pos = (if b < length sequence
                     then b + 1 + first_index marker_slot (drop (b + 1) sequence)
                     else length sequence)\<rparr>)"

text \<open>The bundle in the words of the specification: the slots at the positions strictly between.\<close>

definition slice :: "'a list \<Rightarrow> nat \<Rightarrow> nat \<Rightarrow> 'a list" where
  "slice sequence b e = map (\<lambda>k. sequence ! k) [b + 1..<e]"

text \<open>
  The field initializer in the words of the specification: the one construction call made
  for a field, the default construction with no arguments when the marker is not found, the
  parametric construction with the bundle when it is.
\<close>

definition spec_initialize_field :: "cpp_type \<Rightarrow> 'm \<Rightarrow> 'v argument list \<Rightarrow> ('m, 'v) construct_call" where
  "spec_initialize_field name member sequence =
     (let r = spec_scan name (map fst sequence)
      in if found r then construct_call in_back_step member (slice sequence (beg r) (end_pos r))
         else construct_call in_default_initializer member [])"

section \<open>The scanner computes the scan result of the specification\<close>

lemma first_index_le: "first_index P xs \<le> length xs"
  by (induction xs) auto

lemma first_index_less_iff: "first_index P xs < length xs \<longleftrightarrow> (\<exists>x\<in>set xs. P x)"
  by (induction xs) auto

lemma first_index_eq_length_iff: "first_index P xs = length xs \<longleftrightarrow> (\<forall>x\<in>set xs. \<not> P x)"
  by (induction xs) auto

lemma first_index_holds: "first_index P xs < length xs \<Longrightarrow> P (xs ! first_index P xs)"
  by (induction xs) auto

lemma first_index_least: "i < first_index P xs \<Longrightarrow> \<not> P (xs ! i)"
proof (induction xs arbitrary: i)
  case Nil
  then show ?case by simp
next
  case (Cons x xs)
  then show ?case by (cases i) (auto split: if_splits)
qed

lemma first_index_append:
  "first_index P (xs @ ys) =
     (if \<exists>x\<in>set xs. P x then first_index P xs else length xs + first_index P ys)"
  by (induction xs) auto

lemma it_found_iff: "it_found (iterator n fs) \<longleftrightarrow> (\<exists>t\<in>set fs. matches n t)"
  by (induction fs) (auto simp: Let_def matches_def)

lemma found_iff: "found (arguments_range n h) \<longleftrightarrow> (\<exists>t\<in>set h. matches n t)"
  by (simp add: it_found_iff ngc_reverse_parameter_pack_def)

lemma iterator_snoc:
  "iterator n (rev (xs @ [x])) =
     (let found' = (matches n x \<or> (\<exists>t\<in>set xs. matches n t));
          completed = ((marker_slot x \<and> (\<exists>t\<in>set xs. matches n t)) \<or> it_completed (iterator n (rev xs)))
      in \<lparr>it_found = found', it_completed = completed,
          it_beg = it_beg (iterator n (rev xs)) + (if found' then 0 else 1),
          it_end = it_end (iterator n (rev xs)) + (if completed then 0 else 1)\<rparr>)"
  by (simp add: Let_def it_found_iff ngc_reverse_parameter_pack_def matches_def marker_slot_def del: arguments_range.simps) 
   (simp add: it_found_iff ngc_reverse_parameter_pack_def matches_def)

lemma it_beg_rev: "it_beg (iterator n (rev h)) = first_index (matches n) h"
proof (induction h rule: rev_induct)
  case Nil
  then show ?case by simp
next
  case (snoc x xs)
  show ?case
    unfolding iterator_snoc using snoc
    by (auto simp: Let_def first_index_append first_index_eq_length_iff)
qed


lemma spec_end_snoc:
  "end_pos (spec_scan n (xs @ [x])) =
     (if (marker_slot x \<and> (\<exists>t\<in>set xs. matches n t)) \<or> end_pos (spec_scan n xs) < length xs
      then end_pos (spec_scan n xs) else Suc (end_pos (spec_scan n xs)))"
proof (cases "\<exists>t\<in>set xs. matches n t")
  case True
  define b where "b = first_index (matches n) xs"
  have b: "b < length xs" using True by (simp add: b_def first_index_less_iff)
  have b': "first_index (matches n) (xs @ [x]) = b"
    using True by (simp add: first_index_append b_def)
  define r where "r = drop (Suc b) xs"
  have lr: "length r = length xs - Suc b" by (simp add: r_def)
  have e: "end_pos (spec_scan n xs) = Suc b + first_index marker_slot r"
    using b by (simp add: spec_scan_def Let_def b_def r_def)
  have e': "end_pos (spec_scan n (xs @ [x])) = Suc b + first_index marker_slot (r @ [x])"
    using b b' by (simp add: spec_scan_def Let_def r_def)
  have c: "end_pos (spec_scan n xs) < length xs \<longleftrightarrow> (\<exists>t\<in>set r. marker_slot t)"
    using b lr first_index_less_iff [of marker_slot r] unfolding e by auto
  show ?thesis
  proof (cases "\<exists>t\<in>set r. marker_slot t")
    case True
    then show ?thesis using c e e' by (simp add: first_index_append)
  next
    case False
    then have fr: "first_index marker_slot r = length r"
      by (simp add: first_index_eq_length_iff)
    have "end_pos (spec_scan n xs) = length xs"
      using e fr lr b by simp
    moreover have "end_pos (spec_scan n (xs @ [x])) = length xs + (if marker_slot x then 0 else 1)"
      using e' False lr b by (auto simp: first_index_append)
    ultimately show ?thesis using True by simp
  qed
next
  case False
  then have b: "first_index (matches n) xs = length xs"
    by (simp add: first_index_eq_length_iff)
  then have e: "end_pos (spec_scan n xs) = length xs"
    by (simp add: spec_scan_def Let_def)
  have "end_pos (spec_scan n (xs @ [x])) = Suc (length xs)"
    using False b by (simp add: spec_scan_def Let_def first_index_append)
  then show ?thesis using False e by simp
qed

lemma it_end_rev:
  "it_end (iterator n (rev h)) = end_pos (spec_scan n h) \<and>
   (it_completed (iterator n (rev h)) \<longleftrightarrow> end_pos (spec_scan n h) < length h)"
proof (induction h rule: rev_induct)
  case Nil
  then show ?case by (simp add: spec_scan_def)
next
  case (snoc x xs)
  have le: "end_pos (spec_scan n xs) \<le> length xs"
    using first_index_le [of marker_slot "drop (Suc (first_index (matches n) xs)) xs"]
    by (auto simp: spec_scan_def Let_def)
  show ?case
    unfolding iterator_snoc spec_end_snoc using snoc le
    by (auto simp: Let_def)
qed

lemma arguments_range_eq_spec_scan: "arguments_range n h = spec_scan n h"
proof -
  have "found (spec_scan n h) = (\<exists>t\<in>set h. matches n t)"
    by (simp add: spec_scan_def Let_def first_index_less_iff)
  moreover have "beg (spec_scan n h) = first_index (matches n) h"
    by (simp add: spec_scan_def Let_def)
  ultimately show ?thesis
    using it_end_rev [of n h] it_beg_rev [of n h] it_found_iff [of n "rev h"]
    by (simp add: ngc_reverse_parameter_pack_def)
qed



section \<open>The slicer forwards the slots between the two positions\<close>

lemma back_step_drop:
  "back_step back member arguments s =
     (if back \<le> length arguments then ngc_construct in_back_step member (drop back arguments) s
      else None)"
proof (induction "back" arbitrary: arguments)
  case 0
  then show ?case by simp
next
  case (Suc n)
  then show ?case by (cases arguments) simp_all
qed

lemma rotate_step_rotate:
  "rotate' \<le> length arguments \<Longrightarrow>
   rotate_step rotate' back member arguments s =
     back_step back member (drop rotate' arguments @ take rotate' arguments) s"
proof (induction rotate' arbitrary: arguments)
  case 0
  then show ?case by simp
next
  case (Suc rotate')
  then obtain a as where a: "arguments = a # as" by (cases arguments) auto
  with Suc.prems have "rotate' \<le> length (as @ [a])" by simp
  from Suc.IH [OF this] a Suc.prems show ?case by simp
qed

lemma front_step_drop:
  "front_step front rotate' back member arguments s =
     (if front \<le> length arguments then rotate_step rotate' back member (drop front arguments) s
      else None)"
proof (induction front arbitrary: arguments)
  case 0
  then show ?case by simp
next
  case (Suc front)
  then show ?case by (cases arguments) simp_all
qed

lemma slicer:
  assumes "b < e" and "e \<le> length arguments"
  shows "front_step (b + 1) (e - b - 1) (length arguments - e) member arguments s =
           Some (s @ [construct_call in_back_step member (take (e - b - 1) (drop (b + 1) arguments))])"
proof -
  define rest where "rest = drop (b + 1) arguments"
  have lr: "length rest = length arguments - (b + 1)" by (simp add: rest_def)
  have r: "e - b - 1 \<le> length rest" using assms lr by simp
  have "front_step (b + 1) (e - b - 1) (length arguments - e) member arguments s =
          rotate_step (e - b - 1) (length arguments - e) member rest s"
    using assms by (simp add: front_step_drop rest_def)
  also have "\<dots> = back_step (length arguments - e) member
                      (drop (e - b - 1) rest @ take (e - b - 1) rest) s"
    using r by (rule rotate_step_rotate)
  also have "\<dots> = Some (s @ [construct_call in_back_step member (take (e - b - 1) rest)])"
    using assms lr by (simp add: back_step_drop ngc_construct_def)
  finally show ?thesis by (simp add: rest_def)
qed

lemma slice_take_drop:
  "e \<le> length xs \<Longrightarrow> slice xs b e = take (e - b - 1) (drop (b + 1) xs)"
  unfolding slice_def
  by (rule nth_equalityI) (auto simp: min_def)

lemma spec_scan_bounds:
  "beg (spec_scan n h) \<le> end_pos (spec_scan n h) \<and> end_pos (spec_scan n h) \<le> length h \<and>
   (found (spec_scan n h) \<longrightarrow> beg (spec_scan n h) < end_pos (spec_scan n h))"
  using first_index_le [of "matches n" h]
    first_index_le [of marker_slot "drop (first_index (matches n) h + 1) h"]
  by (auto simp: spec_scan_def Let_def)

lemma size_t_sub_exact: "b \<le> a \<Longrightarrow> size_t_sub a b = a - b"
  by (simp add: size_t_sub_def)

lemma parametric_initializer_slice:
  assumes "found (arguments_range name (map fst arguments))"
  shows "parametric_initializer name member arguments s =
           Some (s @ [construct_call in_back_step member
             (slice arguments (beg (arguments_range name (map fst arguments)))
                (end_pos (arguments_range name (map fst arguments))))])"
proof -
  define r where "r = arguments_range name (map fst arguments)"
  have b: "beg r < end_pos r" "end_pos r \<le> length arguments"
    using assms spec_scan_bounds [of name "map fst arguments"]
    by (simp_all add: r_def arguments_range_eq_spec_scan del: arguments_range.simps)
  have "parametric_initializer name member arguments s =
          front_step (beg r + 1) (end_pos r - beg r - 1) (length arguments - end_pos r)
            member arguments s"
    using b unfolding parametric_initializer_def r_def [symmetric] Let_def
    by (simp add: size_t_sub_exact)
  also have "\<dots> = Some (s @ [construct_call in_back_step member
                        (take (end_pos r - beg r - 1) (drop (beg r + 1) arguments))])"
    using b by (rule slicer)
  finally show ?thesis using b unfolding r_def [symmetric] by (simp add: slice_take_drop)
qed

lemma member_initializer_call:
  "member_initializer name member arguments s =
     Some (s @ [spec_initialize_field name member arguments])"
proof (cases "found (arguments_range name (map fst arguments))")
  case True
  then show ?thesis
    unfolding member_initializer_def Let_def spec_initialize_field_def
    by (simp add: parametric_initializer_slice arguments_range_eq_spec_scan [symmetric]
          del: arguments_range.simps)
next
  case False
  then show ?thesis
    unfolding member_initializer_def Let_def spec_initialize_field_def
    by (simp add: default_initializer_def ngc_construct_def
          arguments_range_eq_spec_scan [symmetric] del: arguments_range.simps)
qed

lemma member_iterator_calls:
  "member_iterator type index arguments s =
     Some (s @ map (\<lambda>i. spec_initialize_field (ngc_member_name type i) (ngc_member_get type i) arguments)
                 [0..<Suc index])"
  by (induction index) (simp_all add: member_initializer_call)


section \<open>Positions of the scan result\<close>

lemma spec_scan_found:
  "found (spec_scan n h) \<longleftrightarrow> (\<exists>i<length h. matches n (h ! i))"
proof -
  have "(\<exists>t\<in>set h. matches n t) \<longleftrightarrow> (\<exists>i<length h. matches n (h ! i))"
    by (metis in_set_conv_nth)
  then show ?thesis
    by (simp add: spec_scan_def Let_def first_index_less_iff)
qed

lemma spec_scan_beg:
  "(found (spec_scan n h) \<longrightarrow> beg (spec_scan n h) < length h \<and> matches n (h ! beg (spec_scan n h))) \<and>
   (\<forall>i<beg (spec_scan n h). \<not> matches n (h ! i)) \<and>
   (\<not> found (spec_scan n h) \<longrightarrow> beg (spec_scan n h) = length h)"
  using first_index_le [of "matches n" h]
  by (auto simp: spec_scan_def Let_def first_index_holds first_index_least)

lemma spec_scan_end_between:
  assumes "beg (spec_scan n h) < j" and "j < end_pos (spec_scan n h)"
  shows "\<not> marker_slot (h ! j)"
proof -
  define b where "b = first_index (matches n) h"
  have bl: "b < length h"
    using assms by (auto simp: spec_scan_def Let_def b_def split: if_splits)
  have e: "end_pos (spec_scan n h) = b + 1 + first_index marker_slot (drop (b + 1) h)"
    using bl by (simp add: spec_scan_def Let_def b_def)
  have bj: "b < j" using assms(1) by (simp add: spec_scan_def Let_def b_def)
  then obtain k where k: "j = b + 1 + k" using less_iff_Suc_add by auto
  with assms(2) e have "k < first_index marker_slot (drop (b + 1) h)" by simp
  then have "\<not> marker_slot (drop (b + 1) h ! k)" by (rule first_index_least)
  moreover have "b + 1 + k < length h"
    using assms(2) k spec_scan_bounds [of n h] by simp
  ultimately show ?thesis using k by simp
qed

lemma spec_scan_end_marker:
  assumes "end_pos (spec_scan n h) < length h"
  shows "beg (spec_scan n h) < end_pos (spec_scan n h) \<and> marker_slot (h ! end_pos (spec_scan n h))"
proof -
  define b where "b = first_index (matches n) h"
  have bl: "b < length h"
    using assms by (auto simp: spec_scan_def Let_def b_def split: if_splits)
  have e: "end_pos (spec_scan n h) = b + 1 + first_index marker_slot (drop (b + 1) h)"
    using bl by (simp add: spec_scan_def Let_def b_def)
  have "first_index marker_slot (drop (b + 1) h) < length (drop (b + 1) h)"
    using assms e by simp
  then have "marker_slot (drop (b + 1) h ! first_index marker_slot (drop (b + 1) h))"
    by (rule first_index_holds)
  then have "marker_slot (h ! end_pos (spec_scan n h))"
    using assms e by (simp add: add.assoc)
  moreover have "beg (spec_scan n h) = b" by (simp add: spec_scan_def Let_def b_def)
  ultimately show ?thesis using e by simp
qed

section \<open>The calls of a whole initialization\<close>

lemma call_member_spec_initialize_field:
  "call_member (spec_initialize_field name member arguments) = member"
  by (simp add: spec_initialize_field_def Let_def)

lemma fold_member_initializer:
  "fold (\<lambda>i acc. Option.bind acc (member_initializer (ngc_member_name type i) (ngc_member_get type i) arguments))
        [0..<n] (Some s) =
     Some (s @ map (\<lambda>i. spec_initialize_field (ngc_member_name type i) (ngc_member_get type i) arguments)
                 [0..<n])"
  by (induction n) (simp_all add: member_initializer_call)

lemma ngc_initialize_calls:
  "ngc_initialize type arguments s =
     Some (s @ map (\<lambda>i. spec_initialize_field (ngc_member_name type i) (ngc_member_get type i) arguments)
                 [0..<ngc_member_count type])"
proof (cases "ngc_member_count type")
  case 0
  then show ?thesis by (simp add: ngc_initialize_def null_iterator_def)
next
  case (Suc n)
  then show ?thesis
    by (simp add: ngc_initialize_def member_iterator_calls del: upt_Suc)
qed

lemma default_initializer_call:
  "default_initializer name member arguments s =
     Some (s @ [construct_call in_default_initializer member []])"
  by (simp add: default_initializer_def ngc_construct_def)

lemma spec_scan_end_next:
  assumes "found (spec_scan n h)"
  shows "end_pos (spec_scan n h) = beg (spec_scan n h) + 1 \<longleftrightarrow>
           (beg (spec_scan n h) + 1 = length h \<or> marker_slot (h ! (beg (spec_scan n h) + 1)))"
proof
  assume e: "end_pos (spec_scan n h) = beg (spec_scan n h) + 1"
  show "beg (spec_scan n h) + 1 = length h \<or> marker_slot (h ! (beg (spec_scan n h) + 1))"
  proof (cases "end_pos (spec_scan n h) < length h")
    case True
    then show ?thesis using spec_scan_end_marker [of n h] e by simp
  next
    case False
    then show ?thesis using spec_scan_bounds [of n h] e by simp
  qed
next
  assume a: "beg (spec_scan n h) + 1 = length h \<or> marker_slot (h ! (beg (spec_scan n h) + 1))"
  have b: "beg (spec_scan n h) < end_pos (spec_scan n h)" "end_pos (spec_scan n h) \<le> length h"
    using assms spec_scan_bounds [of n h] by simp_all
  show "end_pos (spec_scan n h) = beg (spec_scan n h) + 1"
  proof (rule ccontr)
    assume "end_pos (spec_scan n h) \<noteq> beg (spec_scan n h) + 1"
    with b have lt: "beg (spec_scan n h) + 1 < end_pos (spec_scan n h)" by simp
    then have "\<not> marker_slot (h ! (beg (spec_scan n h) + 1))"
      using spec_scan_end_between [of n h "beg (spec_scan n h) + 1"] by simp
    with a lt b show False by simp
  qed
qed

section \<open>Later markers after the first occurrence\<close>

lemma first_index_unique:
  assumes "i < length xs" and "P (xs ! i)" and "\<forall>k<i. \<not> P (xs ! k)"
  shows "first_index P xs = i"
proof -
  have "\<exists>x\<in>set xs. P x" using assms(1,2) nth_mem by blast
  then have f: "first_index P xs < length xs" by (simp add: first_index_less_iff)
  have "\<not> first_index P xs < i"
    using assms(3) first_index_holds [OF f] by blast
  moreover have "\<not> i < first_index P xs"
    using assms(2) first_index_least [of i P xs] by blast
  ultimately show ?thesis by simp
qed

lemma matches_marker_slot: "matches n t \<Longrightarrow> marker_slot t = marker_slot n"
  by (simp add: matches_def marker_slot_def is_same_def)

lemma spec_scan_end_le_marker:
  assumes "found (spec_scan n h)" and "beg (spec_scan n h) < j" and "j < length h"
    and "marker_slot (h ! j)"
  shows "end_pos (spec_scan n h) \<le> j"
    and "end_pos (spec_scan n h) = j \<longleftrightarrow>
           (\<forall>k. beg (spec_scan n h) < k \<and> k < j \<longrightarrow> \<not> marker_slot (h ! k))"
proof -
  show le: "end_pos (spec_scan n h) \<le> j"
    using spec_scan_end_between [of n h j] assms(2,4) by (meson not_le)
  show "end_pos (spec_scan n h) = j \<longleftrightarrow>
           (\<forall>k. beg (spec_scan n h) < k \<and> k < j \<longrightarrow> \<not> marker_slot (h ! k))"
  proof
    assume "end_pos (spec_scan n h) = j"
    then show "\<forall>k. beg (spec_scan n h) < k \<and> k < j \<longrightarrow> \<not> marker_slot (h ! k)"
      using spec_scan_end_between [of n h] by blast
  next
    assume a: "\<forall>k. beg (spec_scan n h) < k \<and> k < j \<longrightarrow> \<not> marker_slot (h ! k)"
    show "end_pos (spec_scan n h) = j"
    proof (rule ccontr)
      assume "end_pos (spec_scan n h) \<noteq> j"
      with le have lt: "end_pos (spec_scan n h) < j" by simp
      with assms(3) have "end_pos (spec_scan n h) < length h" by simp
      from spec_scan_end_marker [OF this] a lt show False by blast
    qed
  qed
qed

lemma parametric_initializer_not_found:
  assumes "\<not> found (arguments_range name (map fst arguments))"
  shows "parametric_initializer name member arguments s = None"
proof -
  have "beg (spec_scan name (map fst arguments)) = length arguments"
    using assms spec_scan_beg [of name "map fst arguments"]
    unfolding arguments_range_eq_spec_scan by simp
  then show ?thesis
    unfolding parametric_initializer_def Let_def arguments_range_eq_spec_scan
    by (simp add: front_step_drop)
qed

section \<open>Cleaning and qualification\<close>

lemma clean_cpp_type: "clean (cpp_type b c v r) = cpp_type b False v no_ref"
  by (simp add: clean_def)

lemma clean_qualify: "clean (qualify c r t) = clean t"
  by (cases t) (simp add: clean_def)

lemma marker_slot_iff: "marker_slot t \<longleftrightarrow> (\<exists>chars. clean t = string_type chars)"
proof (cases t)
  case (cpp_type b c v r)
  show ?thesis
  proof (cases b)
    case (ngc_string chars)
    then show ?thesis using cpp_type
      by (cases v) (auto simp: marker_slot_def clean_def string_type_def)
  next
    case (other_type name)
    then show ?thesis using cpp_type
      by (auto simp: marker_slot_def clean_def string_type_def)
  qed
qed

lemma first_index_map: "first_index P (map f xs) = first_index (\<lambda>x. P (f x)) xs"
  by (induction xs) auto

lemma spec_scan_cong:
  assumes "clean n = clean n'" and "map clean h = map clean h'"
  shows "spec_scan n h = spec_scan n' h'"
proof -
  have l: "length h = length h'" using assms(2) by (rule map_eq_imp_length_eq)
  have "first_index (matches n) h = first_index (is_same (clean n)) (map clean h)"
    by (simp add: first_index_map matches_def [abs_def])
  also have "\<dots> = first_index (matches n') h'"
    unfolding assms by (simp add: first_index_map matches_def [abs_def])
  finally have b: "first_index (matches n) h = first_index (matches n') h'" .
  have "first_index marker_slot (drop k h) = first_index is_string (drop k (map clean h))" for k
    by (simp add: drop_map first_index_map marker_slot_def [abs_def])
  also have "\<dots> k = first_index marker_slot (drop k h')" for k
    unfolding assms by (simp add: drop_map first_index_map marker_slot_def [abs_def])
  finally have e: "first_index marker_slot (drop k h) = first_index marker_slot (drop k h')" for k .
  show ?thesis
    unfolding spec_scan_def Let_def b l e ..
qed

lemma spec_initialize_field_no_marker:
  assumes "a \<in> set (call_arguments (spec_initialize_field name member arguments))"
  shows "\<not> marker_slot (fst a)"
proof (cases "found (spec_scan name (map fst arguments))")
  case True
  define r where "r = spec_scan name (map fst arguments)"
  have e: "end_pos r \<le> length arguments"
    using spec_scan_bounds [of name "map fst arguments"] by (simp add: r_def)
  from assms True have "a \<in> set (slice arguments (beg r) (end_pos r))"
    by (simp add: spec_initialize_field_def Let_def r_def)
  then obtain k where k: "beg r < k" "k < end_pos r" "a = arguments ! k"
    unfolding slice_def by (auto simp: Suc_le_eq)
  then have "\<not> marker_slot (map fst arguments ! k)"
    using spec_scan_end_between [of name "map fst arguments" k] by (simp add: r_def)
  then show ?thesis using k e by simp
next
  case False
  with assms show ?thesis by (simp add: spec_initialize_field_def Let_def)
qed

section \<open>The claims\<close>

text \<open>
  C1. For every target name and every sequence of slot types, \<^verbatim>\<open>arguments_range\<close> yields
  the scan result of the specification: \<open>found\<close> holds iff some slot matches the target;
  \<open>beg\<close> is the index from the head of the first matching slot, or the length of the
  sequence when there is none; \<open>end_pos\<close> is the index of the first marker slot strictly
  after \<open>beg\<close>, or the length when there is none. The empty sequence yields
  \<open>found = False\<close>, \<open>beg = 0\<close>, \<open>end_pos = 0\<close>.
\<close>

theorem arguments_range_scan:
  "arguments_range target_name sequence = spec_scan target_name sequence \<and>
   (found (arguments_range target_name sequence) \<longleftrightarrow>
      (\<exists>i<length sequence. matches target_name (sequence ! i))) \<and>
   (found (arguments_range target_name sequence) \<longrightarrow>
      beg (arguments_range target_name sequence) < length sequence \<and>
      matches target_name (sequence ! beg (arguments_range target_name sequence))) \<and>
   (\<forall>i<beg (arguments_range target_name sequence). \<not> matches target_name (sequence ! i)) \<and>
   (\<not> found (arguments_range target_name sequence) \<longrightarrow>
      beg (arguments_range target_name sequence) = length sequence) \<and>
   end_pos (arguments_range target_name sequence) \<le> length sequence \<and>
   (\<forall>j. beg (arguments_range target_name sequence) < j \<and>
        j < end_pos (arguments_range target_name sequence) \<longrightarrow> \<not> marker_slot (sequence ! j)) \<and>
   (end_pos (arguments_range target_name sequence) < length sequence \<longrightarrow>
      beg (arguments_range target_name sequence) < end_pos (arguments_range target_name sequence) \<and>
      marker_slot (sequence ! end_pos (arguments_range target_name sequence))) \<and>
   arguments_range target_name [] = \<lparr>found = False, beg = 0, end_pos = 0\<rparr>"
proof -
  have empty: "arguments_range target_name [] = \<lparr>found = False, beg = 0, end_pos = 0\<rparr>"
    by (simp add: ngc_reverse_parameter_pack_def)
  show ?thesis
    unfolding arguments_range_eq_spec_scan
    using spec_scan_found [of target_name sequence] spec_scan_beg [of target_name sequence]
      spec_scan_bounds [of target_name sequence]
      spec_scan_end_between [of target_name sequence]
      spec_scan_end_marker [of target_name sequence]
      empty [unfolded arguments_range_eq_spec_scan]
    by blast
qed

theorem arguments_range_scan_witness:
  "arguments_range (string_type ''a'')
     [value_type ''int'', qualify True lvalue_ref (string_type ''a''), value_type ''int'',
      string_type ''b'', value_type ''char'', string_type ''a'']
   = \<lparr>found = True, beg = 1, end_pos = 3\<rparr>"
  using arguments_range_scan [of "string_type ''a''"
     "[value_type ''int'', qualify True lvalue_ref (string_type ''a''), value_type ''int'',
      string_type ''b'', value_type ''char'', string_type ''a'']"]
  by (simp add: spec_scan_def matches_def marker_slot_def clean_def is_same_def string_type_def
        value_type_def del: arguments_range.simps)

text \<open>
  C2. For every field whose marker is found, the parametric initializer makes one call of
  \<^verbatim>\<open>__ngc_construct__\<close> whose arguments are exactly the slots of the original sequence at
  the positions strictly between \<open>beg\<close> and \<open>end_pos\<close>, in their order, each position once;
  no slot at or before \<open>beg\<close> or at or after \<open>end_pos\<close> is passed, and every slot passed is
  a value slot.
\<close>

theorem parametric_bundle_exact:
  assumes "found (arguments_range name (map fst arguments))"
  shows "parametric_initializer name member arguments s =
           Some (s @ [construct_call in_back_step member
             (slice arguments (beg (arguments_range name (map fst arguments)))
                (end_pos (arguments_range name (map fst arguments))))]) \<and>
         slice arguments (beg (arguments_range name (map fst arguments)))
             (end_pos (arguments_range name (map fst arguments))) =
           map (\<lambda>k. arguments ! k)
             [beg (arguments_range name (map fst arguments)) + 1 ..<
              end_pos (arguments_range name (map fst arguments))] \<and>
         beg (arguments_range name (map fst arguments)) <
           end_pos (arguments_range name (map fst arguments)) \<and>
         end_pos (arguments_range name (map fst arguments)) \<le> length arguments \<and>
         (\<forall>a\<in>set (slice arguments (beg (arguments_range name (map fst arguments)))
                      (end_pos (arguments_range name (map fst arguments)))).
            \<not> marker_slot (fst a))"
proof -
  define r where "r = arguments_range name (map fst arguments)"
  have rs: "r = spec_scan name (map fst arguments)"
    unfolding r_def by (rule arguments_range_eq_spec_scan)
  have b: "beg r < end_pos r" "end_pos r \<le> length arguments"
    using assms spec_scan_bounds [of name "map fst arguments"]
    unfolding r_def [symmetric] rs [symmetric] by simp_all
  have v: "\<not> marker_slot (fst a)" if "a \<in> set (slice arguments (beg r) (end_pos r))" for a
  proof -
    from that obtain k where k: "beg r < k" "k < end_pos r" "a = arguments ! k"
      unfolding slice_def by (auto simp: Suc_le_eq)
    then have "\<not> marker_slot (map fst arguments ! k)"
      using spec_scan_end_between [of name "map fst arguments" k] unfolding rs [symmetric] by simp
    then show ?thesis using k b by simp
  qed
  show ?thesis
    unfolding r_def [symmetric]
    using parametric_initializer_slice [OF assms, of member s, unfolded r_def [symmetric]] b v
    by (simp add: slice_def)
qed

theorem parametric_bundle_exact_witness:
  "parametric_initializer (string_type ''a'') (0::nat)
     [(string_type ''b'', 10::nat), (value_type ''double'', 11),
      (qualify True lvalue_ref (string_type ''a''), 12), (value_type ''int'', 13),
      (qualify False rvalue_ref (value_type ''char''), 14), (string_type ''c'', 15),
      (value_type ''int'', 16)] []
   = Some [construct_call in_back_step 0
       [(value_type ''int'', 13), (qualify False rvalue_ref (value_type ''char''), 14)]]"
proof -
  let ?args = "[(string_type ''b'', 10::nat), (value_type ''double'', 11),
      (qualify True lvalue_ref (string_type ''a''), 12), (value_type ''int'', 13),
      (qualify False rvalue_ref (value_type ''char''), 14), (string_type ''c'', 15),
      (value_type ''int'', 16)]"
  have r: "arguments_range (string_type ''a'') (map fst ?args) = \<lparr>found = True, beg = 2, end_pos = 5\<rparr>"
    unfolding arguments_range_eq_spec_scan
    by (simp add: spec_scan_def matches_def marker_slot_def clean_def is_same_def string_type_def
        value_type_def)
  have f: "found (arguments_range (string_type ''a'') (map fst ?args))"
    unfolding r by simp
  have u: "[Suc (Suc (Suc 0))..<5] = [3, 4]"
    by (simp add: upt_rec numeral_eq_Suc)
  show ?thesis
    using parametric_bundle_exact [OF f, of "0::nat" "[]"] unfolding r
    by (simp add: slice_def u del: arguments_range.simps)
qed

text \<open>
  C3. For every object type with at least one declared member, \<^verbatim>\<open>__ngc_initialize__\<close> runs
  the member initializers for the indices \<open>0\<close> to \<open>ngc_member_count type - 1\<close> in ascending
  order, each on the whole, unchanged sequence of arguments: the calls of
  \<^verbatim>\<open>__ngc_construct__\<close> are logged in declaration order, one per member, whatever the order
  of the markers in the sequence.
\<close>

theorem initialize_declaration_order:
  assumes "0 < ngc_member_count type"
  shows "ngc_initialize type arguments s =
           fold (\<lambda>i acc. Option.bind acc
                   (member_initializer (ngc_member_name type i) (ngc_member_get type i) arguments))
             [0..<ngc_member_count type] (Some s) \<and>
         ngc_initialize type arguments s =
           Some (s @ map (\<lambda>i. spec_initialize_field (ngc_member_name type i) (ngc_member_get type i)
                            arguments) [0..<ngc_member_count type]) \<and>
         map call_member
             (map (\<lambda>i. spec_initialize_field (ngc_member_name type i) (ngc_member_get type i)
                      arguments) [0..<ngc_member_count type]) =
           map (ngc_member_get type) [0..<ngc_member_count type]"
  using assms
  by (simp add: ngc_initialize_calls fold_member_initializer call_member_spec_initialize_field
        comp_def del: upt_Suc)

theorem initialize_declaration_order_witness:
  "ngc_initialize
     \<lparr>ngc_member_count = 3,
      ngc_member_name = (\<lambda>i. string_type (if i = 0 then ''a'' else if i = 1 then ''b'' else ''c'')),
      ngc_member_get = (\<lambda>i. i)\<rparr>
     [(string_type ''c'', 20::int), (value_type ''int'', 21),
      (string_type ''a'', 22), (value_type ''int'', 23)] []
   = Some [construct_call in_back_step 0 [(value_type ''int'', 23)],
           construct_call in_default_initializer 1 [],
           construct_call in_back_step 2 [(value_type ''int'', 21)]]"
proof -
  let ?type = "\<lparr>ngc_member_count = 3,
      ngc_member_name = (\<lambda>i. string_type (if i = 0 then ''a'' else if i = 1 then ''b'' else ''c'')),
      ngc_member_get = (\<lambda>i. i)\<rparr>"
  have h: "0 < ngc_member_count ?type" by simp
  show ?thesis
    using initialize_declaration_order [OF h, THEN conjunct2, THEN conjunct1,
       of "[(string_type ''c'', 20::int), (value_type ''int'', 21),
         (string_type ''a'', 22), (value_type ''int'', 23)]" "[]"]
    by (simp add: upt_rec numeral_eq_Suc spec_initialize_field_def spec_scan_def slice_def
          matches_def marker_slot_def clean_def is_same_def string_type_def value_type_def)
qed

text \<open>
  C4. For every field and every sequence of arguments, the field initializer makes exactly
  one call of \<^verbatim>\<open>__ngc_construct__\<close>: when the field's marker is not found it runs the
  default initializer, which constructs the member with no arguments; when the marker is
  found it runs the parametric initializer only, whose call is made in \<^verbatim>\<open>back_step\<close>.
\<close>

theorem member_initializer_one_call:
  "(\<exists>call. member_initializer name member arguments s = Some (s @ [call])) \<and>
   (\<not> found (arguments_range name (map fst arguments)) \<longrightarrow>
      member_initializer name member arguments s = default_initializer name member arguments s \<and>
      member_initializer name member arguments s =
        Some (s @ [construct_call in_default_initializer member []])) \<and>
   (found (arguments_range name (map fst arguments)) \<longrightarrow>
      member_initializer name member arguments s = parametric_initializer name member arguments s \<and>
      member_initializer name member arguments s =
        Some (s @ [construct_call in_back_step member
          (slice arguments (beg (arguments_range name (map fst arguments)))
             (end_pos (arguments_range name (map fst arguments))))]))"
proof -
  have "\<exists>call. member_initializer name member arguments s = Some (s @ [call])"
    by (simp add: member_initializer_call)
  moreover have "member_initializer name member arguments s =
      default_initializer name member arguments s \<and>
      member_initializer name member arguments s =
        Some (s @ [construct_call in_default_initializer member []])"
    if "\<not> found (arguments_range name (map fst arguments))"
    using that unfolding member_initializer_def Let_def
    by (simp add: default_initializer_call del: arguments_range.simps)
  moreover have "member_initializer name member arguments s =
      parametric_initializer name member arguments s \<and>
      member_initializer name member arguments s =
        Some (s @ [construct_call in_back_step member
          (slice arguments (beg (arguments_range name (map fst arguments)))
             (end_pos (arguments_range name (map fst arguments))))])"
    if "found (arguments_range name (map fst arguments))"
    using that parametric_initializer_slice [OF that, of member s]
    unfolding member_initializer_def Let_def
    by (simp del: arguments_range.simps)
  ultimately show ?thesis by blast
qed

theorem member_initializer_one_call_witness:
  "member_initializer (string_type ''b'') (1::nat)
     [(string_type ''a'', 30::int), (value_type ''int'', 31)] []
     = Some [construct_call in_default_initializer 1 []] \<and>
   member_initializer (string_type ''a'') (0::nat)
     [(string_type ''a'', 30::int), (value_type ''int'', 31)] []
     = Some [construct_call in_back_step 0 [(value_type ''int'', 31)]]"
proof -
  let ?args = "[(string_type ''a'', 30::int), (value_type ''int'', 31)]"
  have rb: "arguments_range (string_type ''b'') (map fst ?args) = \<lparr>found = False, beg = 2, end_pos = 2\<rparr>"
    unfolding arguments_range_eq_spec_scan
    by (simp add: spec_scan_def matches_def marker_slot_def clean_def is_same_def string_type_def
        value_type_def)
  have ra: "arguments_range (string_type ''a'') (map fst ?args) = \<lparr>found = True, beg = 0, end_pos = 2\<rparr>"
    unfolding arguments_range_eq_spec_scan
    by (simp add: spec_scan_def matches_def marker_slot_def clean_def is_same_def string_type_def
        value_type_def)
  have nb: "\<not> found (arguments_range (string_type ''b'') (map fst ?args))"
    unfolding rb by simp
  have fa: "found (arguments_range (string_type ''a'') (map fst ?args))"
    unfolding ra by simp
  have 1: "member_initializer (string_type ''b'') (1::nat) ?args [] =
             Some [construct_call in_default_initializer 1 []]"
    using member_initializer_one_call [of "string_type ''b''" "1::nat" ?args "[]",
        THEN conjunct2, THEN conjunct1, rule_format, OF nb, THEN conjunct2]
    by simp
  have 2: "member_initializer (string_type ''a'') (0::nat) ?args [] =
             Some [construct_call in_back_step 0 [(value_type ''int'', 31)]]"
    using member_initializer_one_call [of "string_type ''a''" "0::nat" ?args "[]",
        THEN conjunct2, THEN conjunct2, rule_format, OF fa, THEN conjunct2]
    unfolding ra by (simp add: slice_def upt_rec numeral_eq_Suc)
  from 1 2 show ?thesis by simp
qed

text \<open>
  C5. For a field whose marker is found, the next marker stands right after it
  (\<open>end_pos = beg + 1\<close>) exactly when the marker is the last slot or the slot after it is a
  marker slot; the field is then constructed with no arguments by the parametric
  initializer (the call made in \<^verbatim>\<open>back_step\<close>), not by the default initializer.
\<close>

theorem marker_without_arguments:
  assumes "found (arguments_range name (map fst arguments))"
  shows "(end_pos (arguments_range name (map fst arguments)) =
            beg (arguments_range name (map fst arguments)) + 1) =
         (beg (arguments_range name (map fst arguments)) + 1 = length arguments \<or>
          marker_slot (fst (arguments ! (beg (arguments_range name (map fst arguments)) + 1)))) \<and>
         (end_pos (arguments_range name (map fst arguments)) =
            beg (arguments_range name (map fst arguments)) + 1 \<longrightarrow>
          member_initializer name member arguments s =
            Some (s @ [construct_call in_back_step member []]) \<and>
          member_initializer name member arguments s =
            parametric_initializer name member arguments s \<and>
          member_initializer name member arguments s \<noteq>
            default_initializer name member arguments s)"
proof -
  define r where "r = arguments_range name (map fst arguments)"
  have rs: "r = spec_scan name (map fst arguments)"
    unfolding r_def by (rule arguments_range_eq_spec_scan)
  have f: "found r" using assms by (simp add: r_def del: arguments_range.simps)
  have b: "beg r < end_pos r" "end_pos r \<le> length arguments"
    using f spec_scan_bounds [of name "map fst arguments"] unfolding rs [symmetric] by simp_all
  have nx: "(end_pos r = beg r + 1) =
      (beg r + 1 = length arguments \<or> marker_slot (fst (arguments ! (beg r + 1))))"
  proof (cases "beg r + 1 < length arguments")
    case True
    then show ?thesis
      using spec_scan_end_next [of name "map fst arguments"] f unfolding rs [symmetric] by simp
  next
    case False
    then show ?thesis using b by auto
  qed
  have m: "member_initializer name member arguments s =
      Some (s @ [construct_call in_back_step member (slice arguments (beg r) (end_pos r))])"
    "member_initializer name member arguments s = parametric_initializer name member arguments s"
    using assms parametric_initializer_slice [OF assms, of member s]
    unfolding member_initializer_def Let_def r_def
    by (simp_all del: arguments_range.simps)
  have c: "member_initializer name member arguments s =
        Some (s @ [construct_call in_back_step member []]) \<and>
      member_initializer name member arguments s =
        parametric_initializer name member arguments s \<and>
      member_initializer name member arguments s \<noteq>
        default_initializer name member arguments s"
    if e: "end_pos r = beg r + 1"
  proof -
    have "slice arguments (beg r) (end_pos r) = []"
      unfolding e by (simp add: slice_def)
    with m show ?thesis by (simp add: default_initializer_call)
  qed
  from nx c show ?thesis
    unfolding r_def [symmetric] by blast
qed

theorem marker_without_arguments_witness:
  "member_initializer (string_type ''a'') (0::nat) [(string_type ''a'', 40::int)] []
     = Some [construct_call in_back_step 0 []] \<and>
   member_initializer (string_type ''a'') (0::nat)
     [(string_type ''a'', 40::int), (string_type ''b'', 41), (value_type ''int'', 42)] []
     = Some [construct_call in_back_step 0 []]"
proof -
  let ?a1 = "[(string_type ''a'', 40::int)]"
  let ?a2 = "[(string_type ''a'', 40::int), (string_type ''b'', 41), (value_type ''int'', 42)]"
  have r1: "arguments_range (string_type ''a'') (map fst ?a1) = \<lparr>found = True, beg = 0, end_pos = 1\<rparr>"
    unfolding arguments_range_eq_spec_scan
    by (simp add: spec_scan_def matches_def marker_slot_def clean_def is_same_def string_type_def
        value_type_def)
  have r2: "arguments_range (string_type ''a'') (map fst ?a2) = \<lparr>found = True, beg = 0, end_pos = 1\<rparr>"
    unfolding arguments_range_eq_spec_scan
    by (simp add: spec_scan_def matches_def marker_slot_def clean_def is_same_def string_type_def
        value_type_def)
  have f1: "found (arguments_range (string_type ''a'') (map fst ?a1))" unfolding r1 by simp
  have f2: "found (arguments_range (string_type ''a'') (map fst ?a2))" unfolding r2 by simp
  have 1: "member_initializer (string_type ''a'') (0::nat) ?a1 [] = Some [construct_call in_back_step 0 []]"
    using marker_without_arguments [OF f1, of "0::nat" "[]", THEN conjunct2] unfolding r1 by simp
  have 2: "member_initializer (string_type ''a'') (0::nat) ?a2 [] = Some [construct_call in_back_step 0 []]"
    using marker_without_arguments [OF f2, of "0::nat" "[]", THEN conjunct2] unfolding r2 by simp
  from 1 2 show ?thesis by simp
qed

text \<open>
  C6. When the marker of one field occurs at more than one position, \<open>beg\<close> is the first
  occurrence from the head. The claim that the second occurrence becomes \<open>end_pos\<close> fails
  when another marker stands between the two occurrences: in the sequence
  \<^verbatim>\<open>#a, int, #b, int, #a\<close> the scan for \<^verbatim>\<open>#a\<close> ends at position 2, the marker \<^verbatim>\<open>#b\<close>, not
  at position 4, and the bundle is the one value slot at position 1.
\<close>

theorem duplicate_marker_counterexample:
  "matches (string_type ''a'') (string_type ''a'') \<and>
   \<not> matches (string_type ''a'') (value_type ''int'') \<and>
   \<not> matches (string_type ''a'') (string_type ''b'') \<and>
   arguments_range (string_type ''a'')
     [string_type ''a'', value_type ''int'', string_type ''b'', value_type ''int'', string_type ''a'']
     = \<lparr>found = True, beg = 0, end_pos = 2\<rparr> \<and>
   end_pos (arguments_range (string_type ''a'')
     [string_type ''a'', value_type ''int'', string_type ''b'', value_type ''int'', string_type ''a''])
     \<noteq> 4 \<and>
   member_initializer (string_type ''a'') (0::nat)
     [(string_type ''a'', 50::int), (value_type ''int'', 51), (string_type ''b'', 52),
      (value_type ''int'', 53), (string_type ''a'', 54)] []
     = Some [construct_call in_back_step 0 [(value_type ''int'', 51)]] \<and>
   member_initializer (string_type ''a'') (0::nat)
     [(string_type ''a'', 50::int), (value_type ''int'', 51), (string_type ''b'', 52),
      (value_type ''int'', 53), (string_type ''a'', 54)] []
     \<noteq> Some [construct_call in_back_step 0 [(value_type ''int'', 51), (value_type ''int'', 53)]]"
proof -
  have r: "arguments_range (string_type ''a'')
     [string_type ''a'', value_type ''int'', string_type ''b'', value_type ''int'', string_type ''a'']
     = \<lparr>found = True, beg = 0, end_pos = 2\<rparr>"
    unfolding arguments_range_eq_spec_scan
    by (simp add: spec_scan_def matches_def marker_slot_def clean_def is_same_def string_type_def
        value_type_def)
  have m: "member_initializer (string_type ''a'') (0::nat)
     [(string_type ''a'', 50::int), (value_type ''int'', 51), (string_type ''b'', 52),
      (value_type ''int'', 53), (string_type ''a'', 54)] []
     = Some [construct_call in_back_step 0 [(value_type ''int'', 51)]]"
    unfolding member_initializer_call
    by (simp add: spec_initialize_field_def arguments_range_eq_spec_scan [symmetric] r slice_def
          upt_rec numeral_eq_Suc del: arguments_range.simps)
  have t: "matches (string_type ''a'') (string_type ''a'')"
    "\<not> matches (string_type ''a'') (value_type ''int'')"
    "\<not> matches (string_type ''a'') (string_type ''b'')"
    by (simp_all add: matches_def clean_def is_same_def string_type_def value_type_def)
  show ?thesis
    unfolding m r using t by simp
qed

text \<open>
  C6, as amended. For a field whose name is a marker, with first occurrence at position \<open>i\<close>
  and a later occurrence at position \<open>j\<close>: \<open>beg\<close> is \<open>i\<close>, and \<open>end_pos\<close> is the first
  marker slot after \<open>i\<close>: it is a marker slot, no marker slot stands strictly between \<open>i\<close>
  and it, it lies at or before \<open>j\<close>, and it is \<open>j\<close> exactly when no marker slot stands
  strictly between \<open>i\<close> and \<open>j\<close>. The bundle of the field is the slots strictly between
  \<open>i\<close> and \<open>end_pos\<close>.
\<close>

theorem duplicate_marker_first_wins:
  assumes "marker_slot name"
    and "i < j" and "j < length arguments"
    and "matches name (fst (arguments ! i))" and "matches name (fst (arguments ! j))"
    and "\<forall>k<i. \<not> matches name (fst (arguments ! k))"
  shows "found (arguments_range name (map fst arguments)) \<and>
         beg (arguments_range name (map fst arguments)) = i \<and>
         i < end_pos (arguments_range name (map fst arguments)) \<and>
         end_pos (arguments_range name (map fst arguments)) \<le> j \<and>
         marker_slot (fst (arguments ! end_pos (arguments_range name (map fst arguments)))) \<and>
         (\<forall>k. i < k \<and> k < end_pos (arguments_range name (map fst arguments)) \<longrightarrow>
              \<not> marker_slot (fst (arguments ! k))) \<and>
         (end_pos (arguments_range name (map fst arguments)) = j \<longleftrightarrow>
            (\<forall>k. i < k \<and> k < j \<longrightarrow> \<not> marker_slot (fst (arguments ! k)))) \<and>
         member_initializer name member arguments s =
           Some (s @ [construct_call in_back_step member
             (slice arguments i (end_pos (arguments_range name (map fst arguments))))]) \<and>
         slice arguments i (end_pos (arguments_range name (map fst arguments))) =
           map (\<lambda>k. arguments ! k) [i + 1..<end_pos (arguments_range name (map fst arguments))]"
proof -
  define h where "h = map fst arguments"
  define r where "r = arguments_range name h"
  have rs: "r = spec_scan name h" unfolding r_def by (rule arguments_range_eq_spec_scan)
  have il: "i < length h" using assms(2,3) by (simp add: h_def)
  have hi: "matches name (h ! i)" using assms(2,3,4) by (simp add: h_def)
  have hk: "\<forall>k<i. \<not> matches name (h ! k)" using assms(2,3,6) by (simp add: h_def)
  have b: "beg r = i"
    unfolding rs using first_index_unique [OF il hi hk] by (simp add: spec_scan_def Let_def)
  have f: "found r"
    unfolding rs using first_index_unique [OF il hi hk] il by (simp add: spec_scan_def Let_def)
  have mj: "marker_slot (h ! j)"
    using assms(1,3,5) matches_marker_slot [of name "fst (arguments ! j)"] by (simp add: h_def)
  have jl: "j < length h" using assms(3) by (simp add: h_def)
  have bj: "beg (spec_scan name h) < j" using b assms(2) unfolding rs by simp
  have fs: "found (spec_scan name h)" using f unfolding rs .
  have e1: "end_pos r \<le> j"
    unfolding rs by (rule spec_scan_end_le_marker(1) [OF fs bj jl mj])
  have e2: "end_pos r = j \<longleftrightarrow> (\<forall>k. i < k \<and> k < j \<longrightarrow> \<not> marker_slot (h ! k))"
    using spec_scan_end_le_marker(2) [OF fs bj jl mj] b unfolding rs by simp
  have e2': "end_pos r = j \<longleftrightarrow> (\<forall>k. i < k \<and> k < j \<longrightarrow> \<not> marker_slot (fst (arguments ! k)))"
    unfolding e2 using assms(3) by (auto simp: h_def)
  have e3: "i < end_pos r"
    using spec_scan_bounds [of name h] f b unfolding rs by simp
  have el: "end_pos r < length h" using e1 jl by simp
  have e4: "marker_slot (fst (arguments ! end_pos r))"
    using spec_scan_end_marker [of name h] el unfolding rs [symmetric] by (simp add: h_def)
  have e5: "\<forall>k. i < k \<and> k < end_pos r \<longrightarrow> \<not> marker_slot (fst (arguments ! k))"
  proof (intro allI impI)
    fix k assume k: "i < k \<and> k < end_pos r"
    then have "\<not> marker_slot (h ! k)"
      using spec_scan_end_between [of name h k] b unfolding rs [symmetric] by simp
    moreover have "k < length arguments" using k el by (simp add: h_def)
    ultimately show "\<not> marker_slot (fst (arguments ! k))" by (simp add: h_def)
  qed
  have fa: "found (arguments_range name (map fst arguments))"
    using f unfolding r_def h_def .
  have m: "member_initializer name member arguments s =
      Some (s @ [construct_call in_back_step member (slice arguments i (end_pos r))])"
    using fa parametric_initializer_slice [OF fa, of member s] b
    unfolding member_initializer_def Let_def r_def h_def
    by (simp del: arguments_range.simps)
  have sl: "slice arguments i (end_pos r) = map (\<lambda>k. arguments ! k) [i + 1..<end_pos r]"
    by (simp add: slice_def)
  show ?thesis
    using f b e1 e2' e3 e4 e5 m sl unfolding r_def h_def by blast
qed

theorem duplicate_marker_first_wins_witness:
  "end_pos (arguments_range (string_type ''a'')
     (map fst [(string_type ''a'', 50::int), (value_type ''int'', 51), (string_type ''b'', 52),
        (value_type ''int'', 53), (string_type ''a'', 54)])) = 2 \<and>
   member_initializer (string_type ''a'') (0::nat)
     [(string_type ''a'', 50::int), (value_type ''int'', 51), (string_type ''b'', 52),
        (value_type ''int'', 53), (string_type ''a'', 54)] []
     = Some [construct_call in_back_step 0 [(value_type ''int'', 51)]] \<and>
   end_pos (arguments_range (string_type ''a'')
     (map fst [(value_type ''int'', 60::int), (string_type ''a'', 61), (value_type ''int'', 62),
       (qualify True lvalue_ref (string_type ''a''), 63), (value_type ''int'', 64)])) = 3 \<and>
   member_initializer (string_type ''a'') (0::nat)
     [(value_type ''int'', 60::int), (string_type ''a'', 61), (value_type ''int'', 62),
       (qualify True lvalue_ref (string_type ''a''), 63), (value_type ''int'', 64)] []
     = Some [construct_call in_back_step 0 [(value_type ''int'', 62)]]"
proof -
  let ?a1 = "[(string_type ''a'', 50::int), (value_type ''int'', 51), (string_type ''b'', 52),
        (value_type ''int'', 53), (string_type ''a'', 54)]"
  let ?a2 = "[(value_type ''int'', 60::int), (string_type ''a'', 61), (value_type ''int'', 62),
       (qualify True lvalue_ref (string_type ''a''), 63), (value_type ''int'', 64)]"
  let ?e1 = "end_pos (arguments_range (string_type ''a'') (map fst ?a1))"
  let ?e2 = "end_pos (arguments_range (string_type ''a'') (map fst ?a2))"
  have nm: "marker_slot (string_type ''a'')"
    by (simp add: marker_slot_def clean_def string_type_def)
  have p1: "(0::nat) < 4" "4 < length ?a1" by simp_all
  have q1: "matches (string_type ''a'') (fst (?a1 ! 0))" "matches (string_type ''a'') (fst (?a1 ! 4))"
    by (simp_all add: matches_def clean_def is_same_def string_type_def numeral_eq_Suc)
  have z1: "\<forall>k<0. \<not> matches (string_type ''a'') (fst (?a1 ! k))" by simp
  note t1 = duplicate_marker_first_wins [OF nm p1 q1 z1, of "0::nat" "[]"]
  have s1: "\<not> marker_slot (fst (?a1 ! 1))" "marker_slot (fst (?a1 ! 2))" "\<not> marker_slot (fst (?a1 ! 3))"
    by (simp_all add: marker_slot_def clean_def string_type_def value_type_def numeral_eq_Suc)
  from t1 have r1: "0 < ?e1" "?e1 \<le> 4" "marker_slot (fst (?a1 ! ?e1))"
    "\<forall>k. 0 < k \<and> k < ?e1 \<longrightarrow> \<not> marker_slot (fst (?a1 ! k))" by blast+
  from r1(1,2) have "?e1 = 1 \<or> ?e1 = 2 \<or> ?e1 = 3 \<or> ?e1 = 4" by arith
  then have e1: "?e1 = 2"
  proof (elim disjE)
    assume "?e1 = 1" with r1(3) s1(1) show ?thesis by (simp del: arguments_range.simps)
  next
    assume "?e1 = 2" then show ?thesis .
  next
    assume "?e1 = 3" with r1(3) s1(3) show ?thesis by (simp del: arguments_range.simps)
  next
    assume a: "?e1 = 4"
    have "\<not> marker_slot (fst (?a1 ! 2))"
      using r1(4) [rule_format, of 2] unfolding a by simp
    with s1(2) show ?thesis by blast
  qed
  from t1 have "member_initializer (string_type ''a'') (0::nat) ?a1 [] =
      Some ([] @ [construct_call in_back_step 0 (slice ?a1 0 ?e1)])" by blast
  then have m1: "member_initializer (string_type ''a'') (0::nat) ?a1 [] =
      Some [construct_call in_back_step 0 [(value_type ''int'', 51)]]"
    unfolding e1 by (simp add: slice_def upt_rec numeral_eq_Suc)
  have p2: "(1::nat) < 3" "3 < length ?a2" by simp_all
  have q2: "matches (string_type ''a'') (fst (?a2 ! 1))" "matches (string_type ''a'') (fst (?a2 ! 3))"
    by (simp_all add: matches_def clean_def is_same_def string_type_def numeral_eq_Suc)
  have z2: "\<forall>k<1. \<not> matches (string_type ''a'') (fst (?a2 ! k))"
    by (simp add: matches_def clean_def is_same_def string_type_def value_type_def)
  have n2: "\<forall>k. 1 < k \<and> k < 3 \<longrightarrow> \<not> marker_slot (fst (?a2 ! k))"
  proof (intro allI impI)
    fix k :: nat assume "1 < k \<and> k < 3"
    then have "k = 2" by simp
    then show "\<not> marker_slot (fst (?a2 ! k))"
      by (simp add: marker_slot_def clean_def value_type_def)
  qed
  note t2 = duplicate_marker_first_wins [OF nm p2 q2 z2, of "0::nat" "[]"]
  from t2 n2 have e2: "?e2 = 3" by blast
  from t2 have "member_initializer (string_type ''a'') (0::nat) ?a2 [] =
      Some ([] @ [construct_call in_back_step 0 (slice ?a2 1 ?e2)])" by blast
  then have m2: "member_initializer (string_type ''a'') (0::nat) ?a2 [] =
      Some [construct_call in_back_step 0 [(value_type ''int'', 62)]]"
    unfolding e2 by (simp add: slice_def upt_rec numeral_eq_Suc)
  from e1 m1 e2 m2 show ?thesis by blast
qed

text \<open>
  C7. For every name and every sequence of arguments, \<open>beg \<le> end_pos \<le> length\<close>. When the
  marker is found, \<open>beg < end_pos\<close>, so the three template arguments of \<^verbatim>\<open>front_step\<close>
  (\<open>beg + 1\<close> slots dropped, \<open>end_pos - beg - 1\<close> slots kept, \<open>length - end_pos\<close> slots
  dropped) are computed without wrapping below zero and sum to the length. The slicer runs
  only when the marker is found: the field initializer and \<^verbatim>\<open>__ngc_initialize__\<close> yield a
  result on every input, never the ill-formed instantiation.
\<close>

theorem slice_counts_well_formed:
  "beg (arguments_range name (map fst arguments)) \<le> end_pos (arguments_range name (map fst arguments)) \<and>
   end_pos (arguments_range name (map fst arguments)) \<le> length arguments \<and>
   (found (arguments_range name (map fst arguments)) \<longrightarrow>
      beg (arguments_range name (map fst arguments)) < end_pos (arguments_range name (map fst arguments)) \<and>
      0 \<le> int (end_pos (arguments_range name (map fst arguments)))
             - int (beg (arguments_range name (map fst arguments))) - 1 \<and>
      0 \<le> int (length arguments) - int (end_pos (arguments_range name (map fst arguments))) \<and>
      size_t_sub (size_t_sub (end_pos (arguments_range name (map fst arguments)))
                    (beg (arguments_range name (map fst arguments)))) 1 =
        end_pos (arguments_range name (map fst arguments))
          - beg (arguments_range name (map fst arguments)) - 1 \<and>
      size_t_sub (length arguments) (end_pos (arguments_range name (map fst arguments))) =
        length arguments - end_pos (arguments_range name (map fst arguments)) \<and>
      (beg (arguments_range name (map fst arguments)) + 1)
        + size_t_sub (size_t_sub (end_pos (arguments_range name (map fst arguments)))
                        (beg (arguments_range name (map fst arguments)))) 1
        + size_t_sub (length arguments) (end_pos (arguments_range name (map fst arguments)))
        = length arguments) \<and>
   (\<exists>s'. member_initializer name member arguments s = Some s') \<and>
   (\<exists>s'. ngc_initialize type arguments s = Some s')"
proof -
  define r where "r = arguments_range name (map fst arguments)"
  have rs: "r = spec_scan name (map fst arguments)"
    unfolding r_def by (rule arguments_range_eq_spec_scan)
  have b: "beg r \<le> end_pos r" "end_pos r \<le> length arguments" "found r \<longrightarrow> beg r < end_pos r"
    using spec_scan_bounds [of name "map fst arguments"] unfolding rs [symmetric] by simp_all
  have c: "beg r < end_pos r \<and>
      0 \<le> int (end_pos r) - int (beg r) - 1 \<and>
      0 \<le> int (length arguments) - int (end_pos r) \<and>
      size_t_sub (size_t_sub (end_pos r) (beg r)) 1 = end_pos r - beg r - 1 \<and>
      size_t_sub (length arguments) (end_pos r) = length arguments - end_pos r \<and>
      (beg r + 1) + size_t_sub (size_t_sub (end_pos r) (beg r)) 1
        + size_t_sub (length arguments) (end_pos r) = length arguments"
    if "found r"
  proof -
    from that b have lt: "beg r < end_pos r" by simp
    then show ?thesis using b(2) by (simp add: size_t_sub_exact)
  qed
  have m: "\<exists>s'. member_initializer name member arguments s = Some s'"
    by (simp add: member_initializer_call)
  have n: "\<exists>s'. ngc_initialize type arguments s = Some s'"
    by (simp add: ngc_initialize_calls)
  from b c m n show ?thesis unfolding r_def [symmetric] by blast
qed

theorem slice_counts_well_formed_witness:
  "size_t_sub (size_t_sub
       (end_pos (arguments_range (string_type ''a'')
          (map fst [(string_type ''a'', 70::int), (value_type ''int'', 71), (value_type ''int'', 72),
             (string_type ''b'', 73), (value_type ''int'', 74)])))
       (beg (arguments_range (string_type ''a'')
          (map fst [(string_type ''a'', 70::int), (value_type ''int'', 71), (value_type ''int'', 72),
             (string_type ''b'', 73), (value_type ''int'', 74)])))) 1 = 2 \<and>
   size_t_sub 5
       (end_pos (arguments_range (string_type ''a'')
          (map fst [(string_type ''a'', 70::int), (value_type ''int'', 71), (value_type ''int'', 72),
             (string_type ''b'', 73), (value_type ''int'', 74)]))) = 2"
proof -
  let ?args = "[(string_type ''a'', 70::int), (value_type ''int'', 71), (value_type ''int'', 72),
             (string_type ''b'', 73), (value_type ''int'', 74)]"
  have r: "arguments_range (string_type ''a'') (map fst ?args) = \<lparr>found = True, beg = 0, end_pos = 3\<rparr>"
    unfolding arguments_range_eq_spec_scan
    by (simp add: spec_scan_def matches_def marker_slot_def clean_def is_same_def string_type_def
        value_type_def)
  have f: "found (arguments_range (string_type ''a'') (map fst ?args))" unfolding r by simp
  show ?thesis
    using slice_counts_well_formed [of "string_type ''a''" ?args "0::nat" "[]"
        "\<lparr>ngc_member_count = 0, ngc_member_name = (\<lambda>i. string_type ''a''), ngc_member_get = (\<lambda>i. i)\<rparr>",
        THEN conjunct2, THEN conjunct2, THEN conjunct1, rule_format, OF f]
    unfolding r by (simp add: numeral_eq_Suc)
qed

text \<open>
  C8. For an object type with no declared member, \<^verbatim>\<open>__ngc_initialize__\<close> runs the
  \<^verbatim>\<open>null_iterator\<close>: whatever the arguments, markers and values alike, no call of
  \<^verbatim>\<open>__ngc_construct__\<close> is made, nothing is taken from the sequence and the result is the
  unchanged log.
\<close>

theorem empty_object_no_op:
  assumes "ngc_member_count type = 0"
  shows "ngc_initialize type arguments s = Some s \<and>
         ngc_initialize type arguments s = null_iterator type arguments s"
  using assms by (simp add: ngc_initialize_def null_iterator_def)

theorem empty_object_no_op_witness:
  "ngc_initialize
     \<lparr>ngc_member_count = 0, ngc_member_name = (\<lambda>i. string_type ''a''), ngc_member_get = (\<lambda>i. i :: nat)\<rparr>
     [(string_type ''a'', 80::int), (value_type ''int'', 81)] [] = Some []"
proof -
  let ?type = "\<lparr>ngc_member_count = 0, ngc_member_name = (\<lambda>i. string_type ''a''),
                 ngc_member_get = (\<lambda>i. i :: nat)\<rparr>"
  have h: "ngc_member_count ?type = 0" by simp
  from empty_object_no_op [OF h, of "[(string_type ''a'', 80::int), (value_type ''int'', 81)]" "[]"]
  show ?thesis by (rule conjunct1)
qed

text \<open>
  C9. The comparison of the needle with a slot cleans both types first: \<^verbatim>\<open>clean\<close> removes the
  reference and the \<^verbatim>\<open>const\<close> and keeps the rest, and the match holds iff the cleaned types
  are the same type; two markers match iff they have the same characters. Hence the scan
  result depends on the cleaned types only: it is the same for any two needles and any two
  sequences that agree after cleaning, and so is unchanged when the \<^verbatim>\<open>const\<close> or reference
  qualification of the needle or of any slot is replaced.
\<close>

theorem marker_identity_normalized:
  "clean (cpp_type b c v r) = cpp_type b False v no_ref \<and>
   clean (qualify c r t) = clean t \<and>
   matches a a' = (clean a = clean a') \<and>
   (marker_slot a \<and> marker_slot a' \<longrightarrow>
      (\<exists>x y. clean a = string_type x \<and> clean a' = string_type y \<and> matches a a' = (x = y))) \<and>
   (clean needle = clean needle' \<and> map clean haystack = map clean haystack' \<longrightarrow>
      arguments_range needle haystack = arguments_range needle' haystack') \<and>
   (length qs = length haystack \<longrightarrow>
      arguments_range (qualify c r needle)
          (map (\<lambda>((c', r'), t'). qualify c' r' t') (zip qs haystack)) =
        arguments_range needle haystack)"
proof -
  have c1: "clean (cpp_type b c v r) = cpp_type b False v no_ref" by (rule clean_cpp_type)
  have c2: "clean (qualify c r t) = clean t" by (rule clean_qualify)
  have m: "matches a a' = (clean a = clean a')"
    by (simp add: matches_def is_same_def)
  have s: "marker_slot a \<and> marker_slot a' \<longrightarrow>
      (\<exists>x y. clean a = string_type x \<and> clean a' = string_type y \<and> matches a a' = (x = y))"
  proof
    assume "marker_slot a \<and> marker_slot a'"
    then obtain x y where xy: "clean a = string_type x" "clean a' = string_type y"
      unfolding marker_slot_iff by blast
    have "matches a a' = (x = y)" unfolding m xy by (simp add: string_type_def)
    with xy show "\<exists>x y. clean a = string_type x \<and> clean a' = string_type y \<and> matches a a' = (x = y)"
      by blast
  qed
  have g: "clean needle = clean needle' \<and> map clean haystack = map clean haystack' \<longrightarrow>
      arguments_range needle haystack = arguments_range needle' haystack'"
  proof
    assume "clean needle = clean needle' \<and> map clean haystack = map clean haystack'"
    then have "spec_scan needle haystack = spec_scan needle' haystack'"
      by (intro spec_scan_cong) simp_all
    then show "arguments_range needle haystack = arguments_range needle' haystack'"
      unfolding arguments_range_eq_spec_scan .
  qed
  have q: "length qs = length haystack \<longrightarrow>
      arguments_range (qualify c r needle)
          (map (\<lambda>((c', r'), t'). qualify c' r' t') (zip qs haystack)) =
        arguments_range needle haystack"
  proof
    assume l: "length qs = length haystack"
    then have "map clean (map (\<lambda>((c', r'), t'). qualify c' r' t') (zip qs haystack)) = map clean haystack"
    proof (induction qs haystack rule: list_induct2)
      case Nil
      then show ?case by simp
    next
      case (Cons x xs y ys)
      then show ?case by (cases x) (simp add: clean_qualify)
    qed
    then have "spec_scan (qualify c r needle)
          (map (\<lambda>((c', r'), t'). qualify c' r' t') (zip qs haystack)) = spec_scan needle haystack"
      by (intro spec_scan_cong) (simp_all add: clean_qualify)
    then show "arguments_range (qualify c r needle)
          (map (\<lambda>((c', r'), t'). qualify c' r' t') (zip qs haystack)) =
        arguments_range needle haystack"
      unfolding arguments_range_eq_spec_scan .
  qed
  from conjI [OF c1 conjI [OF c2 conjI [OF m conjI [OF s conjI [OF g q]]]]]
  show ?thesis .
qed

theorem marker_identity_normalized_witness:
  "arguments_range (qualify True lvalue_ref (string_type ''a''))
     (map (\<lambda>((c', r'), t'). qualify c' r' t')
        (zip [(True, no_ref), (False, rvalue_ref), (True, lvalue_ref)]
           [value_type ''int'', string_type ''a'', string_type ''b'']))
   = arguments_range (string_type ''a'') [value_type ''int'', string_type ''a'', string_type ''b''] \<and>
   matches (qualify True lvalue_ref (string_type ''a'')) (qualify False rvalue_ref (string_type ''a''))"
proof -
  let ?qs = "[(True, no_ref), (False, rvalue_ref), (True, lvalue_ref)]"
  let ?h = "[value_type ''int'', string_type ''a'', string_type ''b'']"
  have l: "length ?qs = length ?h" by simp
  note t = marker_identity_normalized [where a = "qualify True lvalue_ref (string_type ''a'')"
      and a' = "qualify False rvalue_ref (string_type ''a'')"]
  have 1: "arguments_range (qualify True lvalue_ref (string_type ''a''))
     (map (\<lambda>((c', r'), t'). qualify c' r' t') (zip ?qs ?h))
   = arguments_range (string_type ''a'') ?h"
    using marker_identity_normalized [where qs = ?qs and haystack = ?h and c = True
        and r = lvalue_ref and needle = "string_type ''a''",
        THEN conjunct2, THEN conjunct2, THEN conjunct2, THEN conjunct2, THEN conjunct2,
        rule_format, OF l] .
  have ms: "marker_slot (qualify True lvalue_ref (string_type ''a'')) \<and>
            marker_slot (qualify False rvalue_ref (string_type ''a''))"
    by (simp add: marker_slot_def clean_def string_type_def)
  have "matches (qualify True lvalue_ref (string_type ''a''))
          (qualify False rvalue_ref (string_type ''a''))"
    using t [THEN conjunct2, THEN conjunct2, THEN conjunct2, THEN conjunct1, rule_format, OF ms]
    by (auto simp: clean_def string_type_def)
  with 1 show ?thesis by blast
qed

text \<open>
  C10. A slot whose cleaned type is an instance of \<^verbatim>\<open>ngc :: string\<close> is a marker slot for
  the scanner. The claim that it becomes the \<open>end_pos\<close> of any found field that precedes it
  fails when another marker stands in between: in the sequence
  \<^verbatim>\<open>#a, int, #b, int, #c, int\<close> the slot \<^verbatim>\<open>#c\<close> at position 4 follows the found marker
  \<^verbatim>\<open>#a\<close>, whose scan ends at position 2. The claim that no value of a string type is ever
  delivered fails for a \<^verbatim>\<open>volatile\<close> string: \<^verbatim>\<open>clean\<close> keeps \<^verbatim>\<open>volatile\<close>, the slot
  \<^verbatim>\<open>volatile ngc :: string <'c'> &\<close> is no marker slot and is forwarded to the field.
\<close>

theorem string_slot_counterexample:
  "[string_type ''a'', value_type ''int'', string_type ''b'', value_type ''int'', string_type ''c'',
    value_type ''int''] ! 4 = string_type ''c'' \<and>
   is_string (clean (string_type ''c'')) \<and>
   found (arguments_range (string_type ''a'')
     [string_type ''a'', value_type ''int'', string_type ''b'', value_type ''int'', string_type ''c'',
      value_type ''int'']) \<and>
   beg (arguments_range (string_type ''a'')
     [string_type ''a'', value_type ''int'', string_type ''b'', value_type ''int'', string_type ''c'',
      value_type ''int'']) = 0 \<and>
   end_pos (arguments_range (string_type ''a'')
     [string_type ''a'', value_type ''int'', string_type ''b'', value_type ''int'', string_type ''c'',
      value_type ''int'']) = 2 \<and>
   end_pos (arguments_range (string_type ''a'')
     [string_type ''a'', value_type ''int'', string_type ''b'', value_type ''int'', string_type ''c'',
      value_type ''int'']) \<noteq> 4 \<and>
   \<not> is_string (clean (cpp_type (ngc_string ''c'') False True lvalue_ref)) \<and>
   member_initializer (string_type ''a'') (0::nat)
     [(string_type ''a'', 100::int), (cpp_type (ngc_string ''c'') False True lvalue_ref, 101)] []
     = Some [construct_call in_back_step 0
               [(cpp_type (ngc_string ''c'') False True lvalue_ref, 101)]]"
proof -
  have r: "arguments_range (string_type ''a'')
     [string_type ''a'', value_type ''int'', string_type ''b'', value_type ''int'', string_type ''c'',
      value_type ''int''] = \<lparr>found = True, beg = 0, end_pos = 2\<rparr>"
    unfolding arguments_range_eq_spec_scan
    by (simp add: spec_scan_def matches_def marker_slot_def clean_def is_same_def string_type_def
        value_type_def)
  have m: "member_initializer (string_type ''a'') (0::nat)
     [(string_type ''a'', 100::int), (cpp_type (ngc_string ''c'') False True lvalue_ref, 101)] []
     = Some [construct_call in_back_step 0
               [(cpp_type (ngc_string ''c'') False True lvalue_ref, 101)]]"
    unfolding member_initializer_call
    by (simp add: spec_initialize_field_def spec_scan_def matches_def marker_slot_def clean_def
          is_same_def string_type_def slice_def upt_rec numeral_eq_Suc)
  show ?thesis
    unfolding r m by (simp add: clean_def string_type_def)
qed

text \<open>
  C10, as amended. A slot at position \<open>j\<close> whose type, after removing \<^verbatim>\<open>const\<close> and
  reference, is an instance of \<^verbatim>\<open>ngc :: string\<close> bounds the bundle of every found field whose
  marker precedes it: the field's \<open>end_pos\<close> is the first such slot after \<open>beg\<close>, at or
  before \<open>j\<close>, and is \<open>j\<close> exactly when no such slot stands strictly between the field's
  marker and \<open>j\<close>. Hence no call of \<^verbatim>\<open>__ngc_construct__\<close> made by the field initializer or
  by \<^verbatim>\<open>__ngc_initialize__\<close> receives an argument whose type, after removing \<^verbatim>\<open>const\<close> and
  reference, is such an instance. A \<^verbatim>\<open>volatile\<close> string type is not such an instance.
\<close>

theorem string_slot_never_delivered:
  "(j < length arguments \<and> is_string (clean (fst (arguments ! j))) \<and>
    found (arguments_range name (map fst arguments)) \<and>
    beg (arguments_range name (map fst arguments)) < j \<longrightarrow>
      beg (arguments_range name (map fst arguments)) <
        end_pos (arguments_range name (map fst arguments)) \<and>
      end_pos (arguments_range name (map fst arguments)) \<le> j \<and>
      is_string (clean (fst (arguments ! end_pos (arguments_range name (map fst arguments))))) \<and>
      (\<forall>k. beg (arguments_range name (map fst arguments)) < k \<and>
           k < end_pos (arguments_range name (map fst arguments)) \<longrightarrow>
           \<not> is_string (clean (fst (arguments ! k)))) \<and>
      (end_pos (arguments_range name (map fst arguments)) = j \<longleftrightarrow>
         (\<forall>k. beg (arguments_range name (map fst arguments)) < k \<and> k < j \<longrightarrow>
              \<not> is_string (clean (fst (arguments ! k)))))) \<and>
   (\<exists>call. member_initializer name member arguments s = Some (s @ [call]) \<and>
      (\<forall>a\<in>set (call_arguments call). \<not> is_string (clean (fst a)))) \<and>
   (\<exists>calls. ngc_initialize type arguments s = Some (s @ calls) \<and>
      (\<forall>call\<in>set calls. \<forall>a\<in>set (call_arguments call). \<not> is_string (clean (fst a)))) \<and>
   \<not> is_string (clean (cpp_type b c True r))"
proof -
  define h where "h = map fst arguments"
  have 1: "beg (arguments_range name h) < end_pos (arguments_range name h) \<and>
      end_pos (arguments_range name h) \<le> j \<and>
      is_string (clean (fst (arguments ! end_pos (arguments_range name h)))) \<and>
      (\<forall>k. beg (arguments_range name h) < k \<and> k < end_pos (arguments_range name h) \<longrightarrow>
           \<not> is_string (clean (fst (arguments ! k)))) \<and>
      (end_pos (arguments_range name h) = j \<longleftrightarrow>
         (\<forall>k. beg (arguments_range name h) < k \<and> k < j \<longrightarrow>
              \<not> is_string (clean (fst (arguments ! k)))))"
    if a: "j < length arguments \<and> is_string (clean (fst (arguments ! j))) \<and>
           found (arguments_range name h) \<and> beg (arguments_range name h) < j"
  proof -
    from a have jl: "j < length h" and mj: "marker_slot (h ! j)"
      and f: "found (spec_scan name h)" and bj: "beg (spec_scan name h) < j"
      unfolding arguments_range_eq_spec_scan by (simp_all add: h_def marker_slot_def)
    have le: "end_pos (spec_scan name h) \<le> j"
      by (rule spec_scan_end_le_marker(1) [OF f bj jl mj])
    have el: "end_pos (spec_scan name h) < length h" using le jl by simp
    have lt: "beg (spec_scan name h) < end_pos (spec_scan name h)"
      using spec_scan_bounds [of name h] f by simp
    have me: "is_string (clean (fst (arguments ! end_pos (spec_scan name h))))"
      using spec_scan_end_marker [OF el] el by (simp add: h_def marker_slot_def)
    have nb: "\<forall>k. beg (spec_scan name h) < k \<and> k < end_pos (spec_scan name h) \<longrightarrow>
           \<not> is_string (clean (fst (arguments ! k)))"
    proof (intro allI impI)
      fix k assume k: "beg (spec_scan name h) < k \<and> k < end_pos (spec_scan name h)"
      then have "\<not> marker_slot (h ! k)"
        using spec_scan_end_between [of name h k] by simp
      moreover have "k < length arguments" using k el by (simp add: h_def)
      ultimately show "\<not> is_string (clean (fst (arguments ! k)))"
        by (simp add: h_def marker_slot_def)
    qed
    have "(\<forall>k. beg (spec_scan name h) < k \<and> k < j \<longrightarrow> \<not> marker_slot (h ! k)) \<longleftrightarrow>
          (\<forall>k. beg (spec_scan name h) < k \<and> k < j \<longrightarrow> \<not> is_string (clean (fst (arguments ! k))))"
      using jl by (auto simp: h_def marker_slot_def)
    then have eq: "end_pos (spec_scan name h) = j \<longleftrightarrow>
        (\<forall>k. beg (spec_scan name h) < k \<and> k < j \<longrightarrow> \<not> is_string (clean (fst (arguments ! k))))"
      using spec_scan_end_le_marker(2) [OF f bj jl mj] by simp
    from lt le me nb eq show ?thesis
      unfolding arguments_range_eq_spec_scan by blast
  qed
  have 2: "\<exists>call. member_initializer name member arguments s = Some (s @ [call]) \<and>
      (\<forall>a\<in>set (call_arguments call). \<not> is_string (clean (fst a)))"
    using spec_initialize_field_no_marker [of _ name member arguments]
    by (auto simp: member_initializer_call marker_slot_def)
  have 3: "\<exists>calls. ngc_initialize type arguments s = Some (s @ calls) \<and>
      (\<forall>call\<in>set calls. \<forall>a\<in>set (call_arguments call). \<not> is_string (clean (fst a)))"
  proof -
    have "\<forall>a\<in>set (call_arguments (spec_initialize_field (ngc_member_name type i)
              (ngc_member_get type i) arguments)). \<not> is_string (clean (fst a))" for i
      using spec_initialize_field_no_marker
        [of _ "ngc_member_name type i" "ngc_member_get type i" arguments]
      by (auto simp: marker_slot_def)
    then show ?thesis
      by (auto simp: ngc_initialize_calls simp del: upt_Suc)
  qed
  have 4: "\<not> is_string (clean (cpp_type b c True r))"
    by (cases b) (simp_all add: clean_def)
  from 1 2 3 4 show ?thesis unfolding h_def by blast
qed

theorem string_slot_never_delivered_witness:
  "end_pos (arguments_range (string_type ''a'')
     (map fst [(string_type ''a'', 90::int), (value_type ''int'', 91),
        (qualify True lvalue_ref (string_type ''b''), 92), (value_type ''int'', 93),
        (string_type ''c'', 94)])) = 2"
proof -
  let ?args = "[(string_type ''a'', 90::int), (value_type ''int'', 91),
        (qualify True lvalue_ref (string_type ''b''), 92), (value_type ''int'', 93),
        (string_type ''c'', 94)]"
  let ?r = "arguments_range (string_type ''a'') (map fst ?args)"
  have fb: "found ?r \<and> beg ?r = 0"
    unfolding arguments_range_eq_spec_scan
    by (simp add: spec_scan_def matches_def clean_def is_same_def string_type_def)
  have h: "4 < length ?args \<and> is_string (clean (fst (?args ! 4))) \<and> found ?r \<and> beg ?r < 4"
    using fb by (simp add: clean_def string_type_def del: arguments_range.simps)
  note t = string_slot_never_delivered [of 4 ?args "string_type ''a''" "0::nat" "[]"
      "\<lparr>ngc_member_count = 0, ngc_member_name = (\<lambda>i. string_type ''a''), ngc_member_get = (\<lambda>i. i)\<rparr>",
      THEN conjunct1, rule_format, OF h]
  have s: "\<not> is_string (clean (fst (?args ! 1)))" "is_string (clean (fst (?args ! 2)))"
    "\<not> is_string (clean (fst (?args ! 3)))"
    by (simp_all add: clean_def string_type_def value_type_def numeral_eq_Suc)
  have b0: "beg ?r = 0" using fb by blast
  from t [unfolded b0]
  have r: "0 < end_pos ?r" "end_pos ?r \<le> 4" "is_string (clean (fst (?args ! end_pos ?r)))"
    "\<forall>k. 0 < k \<and> k < end_pos ?r \<longrightarrow> \<not> is_string (clean (fst (?args ! k)))"
    by blast+
  from r(1,2) have "end_pos ?r = 1 \<or> end_pos ?r = 2 \<or> end_pos ?r = 3 \<or> end_pos ?r = 4" by arith
  then show ?thesis
  proof (elim disjE)
    assume "end_pos ?r = 1" with r(3) s(1) show ?thesis by (simp del: arguments_range.simps)
  next
    assume "end_pos ?r = 2" then show ?thesis .
  next
    assume "end_pos ?r = 3" with r(3) s(3) show ?thesis by (simp del: arguments_range.simps)
  next
    assume a: "end_pos ?r = 4"
    have "\<not> is_string (clean (fst (?args ! 2)))"
      using r(4) [rule_format, of 2] unfolding a by simp
    with s(2) show ?thesis by blast
  qed
qed

end
